theory Spec2Isabelle
  imports
    Main
    "HOL-Library.Sublist"
    "HOL-Library.Char_ord"
    "HOL-Library.List_Lexorder"
    "HOL-Library.AList"
begin

section \<open>The OpenAPI document as the service reads it\<close>

text \<open>
  The embedding follows \<^verbatim>\<open>src/swagger/OpenAPIService.ts\<close>. The service keeps the parsed
  document in its private field \<^verbatim>\<open>spec\<close> and never writes to it, so every method becomes
  a function of that document.

  A JavaScript object used as a dictionary is an association list holding each key once,
  in the order in which \<^verbatim>\<open>Object.keys\<close>, \<^verbatim>\<open>Object.values\<close> and \<^verbatim>\<open>Object.entries\<close>
  enumerate it: the list holds the own keys of the object. An optional field is an
  \<open>option\<close>, \<open>None\<close> standing for \<^verbatim>\<open>undefined\<close>. A string is the list of its code units,
  ordered as \<^verbatim>\<open>sort\<close> without a comparator orders them.

  A schema is one of the four shapes the service distinguishes, or none of them. A
  reference object \<^verbatim>\<open>{$ref: p}\<close> is represented by its pointer \<open>p\<close>. The elements of
  \<^verbatim>\<open>allOf\<close> are references: the source assigns \<^verbatim>\<open>z.allOf\<close> to a variable of type
  \<^verbatim>\<open>IOpenAPI3Reference[]\<close>.
\<close>

datatype schema =
    Reference (ref: string)
  | Collection (items: schema)
  | Object (properties: "(string \<times> schema) list option")
  | AllOf (allOf: "string list")
  | Primitive
where
  "properties (Reference r) = None"
| "properties (Collection i) = None"
| "properties (AllOf rs) = None"
| "properties Primitive = None"

text \<open>A content table maps a media type to the \<^verbatim>\<open>schema\<close> field of its media object.\<close>

type_synonym content = "(string \<times> schema option) list"

record parameter =
  parameter_schema :: "schema option"

record requestBody =
  requestBody_content :: content

record response =
  response_content :: "content option"

record operation =
  tags :: "string list option"
  parameters :: "parameter list option"
  requestBody :: "requestBody option"
  responses :: "(string \<times> response) list"

record pathItem =
  get :: "operation option"
  post :: "operation option"
  put :: "operation option"
  delete :: "operation option"

text \<open>\<open>schemas\<close> is \<^verbatim>\<open>components.schemas\<close>, which the source reads without a check.\<close>

record IOpenAPI3 =
  openapi :: "string option"
  paths :: "(string \<times> pathItem) list option"
  schemas :: "(string \<times> schema) list"

text \<open>
  The objects of a parsed document and the object literals of the service are plain
  objects: under a computed key \<^verbatim>\<open>obj[key]\<close> reads the own value when \<open>key\<close> is an own
  key, and otherwise what \<^verbatim>\<open>Object.prototype\<close> holds under that name, a function or, for
  \<^verbatim>\<open>__proto__\<close>, the prototype object itself; it is \<^verbatim>\<open>undefined\<close> only when the prototype
  has no such name either. \<open>Object_prototype\<close> lists the names of \<^verbatim>\<open>Object.prototype\<close> as
  the language standard gives them.
\<close>

datatype 'a property = Undefined | Own 'a | Inherited string

definition Object_prototype :: "string list" where
  "Object_prototype =
     [''constructor'', ''hasOwnProperty'', ''isPrototypeOf'', ''propertyIsEnumerable'',
      ''toLocaleString'', ''toString'', ''valueOf'', ''__proto__'',
      ''__defineGetter__'', ''__defineSetter__'', ''__lookupGetter__'', ''__lookupSetter__'']"

definition get_property :: "(string \<times> 'a) list \<Rightarrow> string \<Rightarrow> 'a property" where
  "get_property obj key =
     (case map_of obj key of
        Some v \<Rightarrow> Own v
      | None \<Rightarrow> if key \<in> set Object_prototype then Inherited key else Undefined)"

text \<open>
  The names the service reads with a fixed key (the field names, \<^verbatim>\<open>200\<close> and
  \<^verbatim>\<open>application/json\<close>) are none of these, so there reading is looking the own key up.
\<close>

text \<open>
  A schema container is the object the service returns: under a schema name, what
  \<^verbatim>\<open>components.schemas\<close> reads under that name. The list holds its own keys.
\<close>

type_synonym OpenAPI3SchemaContainer = "(string \<times> schema property) list"

type_synonym IOpenAPI3OperationContainer = "(string \<times> operation) list"

datatype error = Error string | TypeError

section \<open>Library operations of the language\<close>

text \<open>\<^verbatim>\<open>s.split(c)\<close> for a one-character separator: always at least one piece.\<close>

fun split_str :: "char \<Rightarrow> string \<Rightarrow> string list" where
  "split_str c [] = [[]]"
| "split_str c (x # xs) =
     (if x = c then [] # split_str c xs
      else (case split_str c xs of
              [] \<Rightarrow> [[x]]
            | p # ps \<Rightarrow> (x # p) # ps))"

text \<open>\<^verbatim>\<open>key.endsWith(endpoint)\<close>.\<close>

definition endsWith :: "string \<Rightarrow> string \<Rightarrow> bool" where
  "endsWith key endpoint = suffix endpoint key"

text \<open>\<^verbatim>\<open>a || b\<close> on values that are objects when present.\<close>

fun or_else :: "'a option \<Rightarrow> 'a option \<Rightarrow> 'a option" where
  "or_else (Some a) b = Some a"
| "or_else None b = b"

text \<open>
  \<^verbatim>\<open>store[key] = value\<close> on a plain object: an existing key keeps its place, a new one
  comes last. Under the key \<^verbatim>\<open>__proto__\<close> the assignment runs the setter that
  \<^verbatim>\<open>Object.prototype\<close> has under that name: it replaces the prototype of the store when the
  value is an object and does nothing otherwise, and in neither case does the store get a
  key. The values assigned are parsed objects, functions and \<^verbatim>\<open>undefined\<close>; a store whose
  prototype is one of them still takes every other key as an own key. The statements
  below read a returned container as the mapping of its own keys and do not depend on
  their order.
\<close>

definition assign :: "string \<Rightarrow> 'v \<Rightarrow> (string \<times> 'v) list \<Rightarrow> (string \<times> 'v) list" where
  "assign key v store = (if key = ''__proto__'' then store else AList.update key v store)"

text \<open>
  The object spread \<^verbatim>\<open>{...store, ...other}\<close> defines the own keys of both on a new
  object, and runs no setter.
\<close>

definition spread :: "('k \<times> 'v) list \<Rightarrow> ('k \<times> 'v) list \<Rightarrow> ('k \<times> 'v) list" where
  "spread store other = fold (\<lambda>(key, v). AList.update key v) other store"

text \<open>
  A \<^verbatim>\<open>Set\<close> as the list of its elements in insertion order: \<^verbatim>\<open>add\<close> of a member
  changes nothing.
\<close>

definition Set_add :: "'a \<Rightarrow> 'a list \<Rightarrow> 'a list" where
  "Set_add x s = (if x \<in> set s then s else s @ [x])"

definition new_Set :: "'a list \<Rightarrow> 'a list" where
  "new_Set xs = fold Set_add xs []"

text \<open>
  A loop whose body may not return: the accumulator is threaded through the elements, and
  the loop returns only if every round does.
\<close>

fun forEach :: "'a list \<Rightarrow> ('a \<Rightarrow> 'b \<Rightarrow> 'b option) \<Rightarrow> 'b \<Rightarrow> 'b option" where
  "forEach [] body acc = Some acc"
| "forEach (x # xs) body acc = Option.bind (body x acc) (forEach xs body)"

lemma forEach_mono [partial_function_mono]:
  assumes "\<And>x acc. mono_option (\<lambda>f. body f x acc)"
  shows "mono_option (\<lambda>f. forEach xs (body f) acc)"
proof (induction xs arbitrary: acc)
  case Nil
  show ?case by (simp add: option.const_mono)
next
  case (Cons x xs)
  show ?case unfolding forEach.simps
    by (rule bind_mono [OF assms Cons])
qed

section \<open>Collaborators that are not in the source tree\<close>

text \<open>
  Modelled from the spec: the helpers \<^verbatim>\<open>first\<close> and \<^verbatim>\<open>last\<close> of \<^verbatim>\<open>../utils\<close> are missing.
  The spec describes \<^verbatim>\<open>first(v.split('.'))\<close> as the substring before the first dot and
  \<^verbatim>\<open>last(p.split('/'))\<close> as the substring after the final slash, so they are the first
  and the last element of an array, \<^verbatim>\<open>undefined\<close> on an empty one.
\<close>

definition first_elem :: "'a list \<Rightarrow> 'a option" where
  "first_elem xs = (case xs of [] \<Rightarrow> None | x # _ \<Rightarrow> Some x)"

definition last_elem :: "'a list \<Rightarrow> 'a option" where
  "last_elem xs = (case rev xs of [] \<Rightarrow> None | x # _ \<Rightarrow> Some x)"

text \<open>
  Modelled from the spec: the class \<^verbatim>\<open>OpenAPITypesGuard\<close> is missing. The spec calls it a
  predicate set distinguishing the shapes Reference, Collection, Object and Composition
  of the tagged union; the source also applies the predicates to \<^verbatim>\<open>undefined\<close>, which
  has no shape. Nor has a value read from \<^verbatim>\<open>Object.prototype\<close>: \<open>shape\<close> gives the schema
  a value read from the components table is, if it is one.
\<close>

definition shape :: "schema property \<Rightarrow> schema option" where
  "shape v = (case v of Own s \<Rightarrow> Some s | _ \<Rightarrow> None)"

fun isReference :: "schema option \<Rightarrow> bool" where
  "isReference (Some (Reference r)) = True"
| "isReference _ = False"

fun isCollection :: "schema option \<Rightarrow> bool" where
  "isCollection (Some (Collection i)) = True"
| "isCollection _ = False"

fun isObject :: "schema option \<Rightarrow> bool" where
  "isObject (Some (Object ps)) = True"
| "isObject _ = False"

fun isAllOf :: "schema option \<Rightarrow> bool" where
  "isAllOf (Some (AllOf rs)) = True"
| "isAllOf _ = False"

section \<open>The service\<close>

definition SUPPORTED_VERSION :: string where
  "SUPPORTED_VERSION = ''3''"

definition majorVersion :: "IOpenAPI3 \<Rightarrow> string option" where
  "majorVersion spec =
     (case openapi spec of
        None \<Rightarrow> None
      | Some v \<Rightarrow> if v = [] then None else first_elem (split_str CHR ''.'' v))"

text \<open>
  The constructor, after \<^verbatim>\<open>JSON.parse\<close>: it throws or yields the instance, which is
  the document it holds.
\<close>

definition new_OpenAPIService :: "IOpenAPI3 \<Rightarrow> error + IOpenAPI3" where
  "new_OpenAPIService json =
     (if majorVersion json \<noteq> Some SUPPORTED_VERSION
      then Inl (Error (''Only OpenApi version '' @ SUPPORTED_VERSION @ '' supported yet.''))
      else Inr json)"

definition getEndpoints :: "IOpenAPI3 \<Rightarrow> string list" where
  "getEndpoints spec =
     (case paths spec of
        None \<Rightarrow> []
      | Some ps \<Rightarrow> sort (map fst ps))"

definition getOperationByEndpoint :: "IOpenAPI3 \<Rightarrow> string \<Rightarrow> operation option" where
  "getOperationByEndpoint spec endpoint =
     (case paths spec of
        None \<Rightarrow> None
      | Some ps \<Rightarrow>
          (case find (\<lambda>(key, _). endsWith key endpoint) ps of
             None \<Rightarrow> None
           | Some (_, pathItem) \<Rightarrow>
               or_else (get pathItem)
                 (or_else (post pathItem) (or_else (put pathItem) (delete pathItem)))))"

definition getTagsByEndpoint :: "IOpenAPI3 \<Rightarrow> string \<Rightarrow> string list" where
  "getTagsByEndpoint spec endpoint =
     (case getOperationByEndpoint spec endpoint of
        None \<Rightarrow> []
      | Some operation \<Rightarrow> (case tags operation of None \<Rightarrow> [] | Some ts \<Rightarrow> ts))"

definition getSchemaKey :: "string \<Rightarrow> string" where
  "getSchemaKey reference =
     (case last_elem (split_str CHR ''/'' reference) of
        None \<Rightarrow> []
      | Some k \<Rightarrow> k)"

text \<open>\<^verbatim>\<open>getSchemaFromContent\<close> pushes onto the array it is given; here it returns it.\<close>

definition getSchemaFromContent :: "string list \<Rightarrow> schema option \<Rightarrow> string list" where
  "getSchemaFromContent refs schema =
     (if isCollection schema \<and> isReference (Some (items (the schema)))
      then refs @ [ref (items (the schema))]
      else if isReference schema then refs @ [ref (the schema)]
      else refs)"

text \<open>
  The schema under \<^verbatim>\<open>content['application/json']?.schema\<close>.
\<close>

definition json_schema :: "content \<Rightarrow> schema option" where
  "json_schema c = (case map_of c ''application/json'' of None \<Rightarrow> None | Some s \<Rightarrow> s)"

text \<open>
  Reading \<^verbatim>\<open>.content\<close> of \<^verbatim>\<open>operation.responses[200]\<close> throws a \<^verbatim>\<open>TypeError\<close> when the
  operation has no such response; the parameters and the request body have been scanned
  by then, and their references are lost with the exception.
\<close>

definition getReferencesByOperation :: "operation \<Rightarrow> error + string list" where
  "getReferencesByOperation operation =
     (let refs = [];
          refs = fold (\<lambda>z refs.
                         if isReference (parameter_schema z)
                         then refs @ [ref (the (parameter_schema z))]
                         else refs)
                   (case parameters operation of None \<Rightarrow> [] | Some ps \<Rightarrow> ps) refs;
          refs = getSchemaFromContent refs
                   (case requestBody operation of
                      None \<Rightarrow> None
                    | Some rb \<Rightarrow> json_schema (requestBody_content rb))
      in case map_of (responses operation) ''200'' of
           None \<Rightarrow> Inl TypeError
         | Some r \<Rightarrow>
             Inr (getSchemaFromContent refs
                    (case response_content r of
                       None \<Rightarrow> None
                     | Some c \<Rightarrow> json_schema c)))"

text \<open>The references one property of an object contributes (\<^verbatim>\<open>propertyRefs\<close>).\<close>

definition propertyRefs :: "schema \<Rightarrow> string list" where
  "propertyRefs z =
     (if isCollection (Some z) \<and> isReference (Some (items z)) then [ref (items z)]
      else if isReference (Some z) then [ref z]
      else if isAllOf (Some z) then allOf z
      else [])"

text \<open>
  \<^verbatim>\<open>getReferencesByObject\<close> calls itself on every object schema a property refers to and
  remembers nothing of where it has been. The result \<open>None\<close> stands for a call that does
  not return: the recursion has no end, and in JavaScript it exhausts the call stack.
\<close>

partial_function (option) getReferencesByObject :: "IOpenAPI3 \<Rightarrow> schema \<Rightarrow> string list option"
where [code]:
  "getReferencesByObject spec object =
     forEach (map snd (case properties object of None \<Rightarrow> [] | Some ps \<Rightarrow> ps))
       (\<lambda>z refs.
          forEach (propertyRefs z)
            (\<lambda>x refs.
               let refs = refs @ [x];
                   schema = get_property (schemas spec) (getSchemaKey x)
               in if isObject (shape schema)
                  then Option.bind (getReferencesByObject spec (the (shape schema)))
                         (\<lambda>r. Some (refs @ r))
                  else Some refs)
            refs)
       []"

definition getSchemas :: "IOpenAPI3 \<Rightarrow> string list \<Rightarrow> OpenAPI3SchemaContainer option" where
  "getSchemas spec refs =
     (let keys = new_Set (map getSchemaKey refs)
      in Option.bind
           (forEach keys
              (\<lambda>z keysFromObjects.
                 let schema = get_property (schemas spec) z
                 in if isObject (shape schema)
                    then Option.bind (getReferencesByObject spec (the (shape schema)))
                           (\<lambda>rs. Some (fold (\<lambda>x. Set_add (getSchemaKey x)) rs keysFromObjects))
                    else Some keysFromObjects)
              [])
           (\<lambda>keysFromObjects.
              Some (fold (\<lambda>key store. assign key (get_property (schemas spec) key) store)
                      (new_Set (keys @ keysFromObjects)) [])))"

text \<open>
  The \<^verbatim>\<open>reduce\<close> of \<^verbatim>\<open>getSchemasByEndpoints\<close> over the looked-up operations. Its result
  is \<open>None\<close> when a call below does not return, \<open>Some (Inl e)\<close> when one throws \<open>e\<close>, and
  \<open>Some (Inr store)\<close> when the method returns \<open>store\<close>.
\<close>

fun reduce_schemas ::
  "IOpenAPI3 \<Rightarrow> operation option list \<Rightarrow> OpenAPI3SchemaContainer
     \<Rightarrow> (error + OpenAPI3SchemaContainer) option" where
  "reduce_schemas spec [] store = Some (Inr store)"
| "reduce_schemas spec (None # rest) store = reduce_schemas spec rest store"
| "reduce_schemas spec (Some operation # rest) store =
     (case getReferencesByOperation operation of
        Inl e \<Rightarrow> Some (Inl e)
      | Inr refs \<Rightarrow>
          (case getSchemas spec refs of
             None \<Rightarrow> None
           | Some found \<Rightarrow> reduce_schemas spec rest (spread store found)))"

text \<open>The set of endpoints is the list of its elements in insertion order.\<close>

definition getSchemasByEndpoints ::
  "IOpenAPI3 \<Rightarrow> string list \<Rightarrow> (error + OpenAPI3SchemaContainer) option" where
  "getSchemasByEndpoints spec endpoints =
     (if endpoints = [] then Some (Inr [])
      else reduce_schemas spec (map (getOperationByEndpoint spec) endpoints) [])"

definition getOperationsByEndpoints :: "IOpenAPI3 \<Rightarrow> string list \<Rightarrow> IOpenAPI3OperationContainer" where
  "getOperationsByEndpoints spec endpoints =
     (if endpoints = [] then []
      else fold (\<lambda>endpoint store.
                   case getOperationByEndpoint spec endpoint of
                     None \<Rightarrow> store
                   | Some operation \<Rightarrow> assign endpoint operation store)
             endpoints [])"

section \<open>The reference graph of a document\<close>

text \<open>
  The names one run of the property scan collects from the schema called \<open>n\<close>: those of
  the references its properties contribute when it is an object, none otherwise.
\<close>

definition scan :: "IOpenAPI3 \<Rightarrow> string \<Rightarrow> string list" where
  "scan spec n =
     (let schema = map_of (schemas spec) n
      in if isObject schema
         then map getSchemaKey
                (concat (map propertyRefs
                   (map snd (case properties (the schema) of None \<Rightarrow> [] | Some ps \<Rightarrow> ps))))
         else [])"

text \<open>\<open>refers\<close> relates a schema name to each name its scan collects.\<close>

definition refers :: "IOpenAPI3 \<Rightarrow> (string \<times> string) set" where
  "refers spec = {(n, m). m \<in> set (scan spec n)}"

text \<open>The names from which the references lead into a cycle.\<close>

definition reaches_cycle :: "IOpenAPI3 \<Rightarrow> string set" where
  "reaches_cycle spec = {n. \<exists>c. (n, c) \<in> (refers spec)\<^sup>* \<and> (c, c) \<in> (refers spec)\<^sup>+}"



section \<open>Single-pass transitive closure with a visited set\<close>



fun direct_references :: "operation option list \<Rightarrow> error + string list" where
  "direct_references [] = Inr []"
| "direct_references (None # rest) = direct_references rest"
| "direct_references (Some operation # rest) =
     (case getReferencesByOperation operation of
        Inl e \<Rightarrow> Inl e
      | Inr refs \<Rightarrow>
          (case direct_references rest of
             Inl e \<Rightarrow> Inl e
           | Inr others \<Rightarrow> Inr (refs @ others)))"


section \<open>Example documents\<close>

definition ok_response :: "(string \<times> response) list" where
  "ok_response = [(''200'', \<lparr>response_content = None\<rparr>)]"

definition plain_operation :: "string \<Rightarrow> operation" where
  "plain_operation tag =
     \<lparr>tags = Some [tag], parameters = None, requestBody = None, responses = ok_response\<rparr>"

definition no_methods :: pathItem where
  "no_methods = \<lparr>get = None, post = None, put = None, delete = None\<rparr>"

text \<open>
  Three paths, not in sorted order; two of them end in \<^verbatim>\<open>/users\<close>, and the first of
  those has no GET.
\<close>

definition routes_doc :: IOpenAPI3 where
  "routes_doc =
     \<lparr>openapi = Some ''3.0.1'',
      paths = Some
        [(''/api/pets'', no_methods\<lparr>get := Some (plain_operation ''pets'')\<rparr>),
         (''/v2/users'', no_methods\<lparr>put := Some (plain_operation ''put-v2''),
                                     delete := Some (plain_operation ''delete-v2'')\<rparr>),
         (''/api/users'', no_methods\<lparr>get := Some (plain_operation ''get-api'')\<rparr>),
         (''/api/empty'', no_methods)],
      schemas = []\<rparr>"

definition pointer :: "string \<Rightarrow> string" where
  "pointer name = ''#/components/schemas/'' @ name"

definition body_operation :: "string \<Rightarrow> (string \<times> response) list \<Rightarrow> operation" where
  "body_operation name rs =
     \<lparr>tags = None, parameters = None,
      requestBody = Some \<lparr>requestBody_content = [(''application/json'', Some (Reference (pointer name)))]\<rparr>,
      responses = rs\<rparr>"

text \<open>
  Two endpoints whose POST bodies refer to \<^verbatim>\<open>User\<close>; the second operation answers with
  status 201 only. \<^verbatim>\<open>Address\<close> refers to a schema the table lacks.
\<close>

definition users_doc :: IOpenAPI3 where
  "users_doc =
     \<lparr>openapi = Some ''3.0.1'',
      paths = Some
        [(''/api/users'', no_methods\<lparr>post := Some (body_operation ''User'' ok_response)\<rparr>),
         (''/api/created'',
            no_methods\<lparr>post := Some (body_operation ''User'' [(''201'', \<lparr>response_content = None\<rparr>)])\<rparr>)],
      schemas =
        [(''User'', Object (Some
            [(''name'', Primitive),
             (''address'', Reference (pointer ''Address'')),
             (''orders'', Collection (Reference (pointer ''Order''))),
             (''meta'', AllOf [pointer ''X'', pointer ''Y''])])),
         (''Address'', Object (Some
            [(''street'', Primitive),
             (''geo'', Reference (pointer ''Missing''))])),
         (''Order'', Primitive),
         (''X'', Object None),
         (''Y'', Primitive),
         (''Unused'', Primitive)]\<rparr>"

text \<open>
  Two object schemas that refer to each other, and an operation whose response for
  status 200 refers to the first.
\<close>

definition cycle_operation :: operation where
  "cycle_operation =
     \<lparr>tags = None, parameters = None, requestBody = None,
      responses = [(''200'', \<lparr>response_content =
          Some [(''application/json'', Some (Reference (pointer ''A'')))]\<rparr>)]\<rparr>"

definition cycle_doc :: IOpenAPI3 where
  "cycle_doc =
     \<lparr>openapi = Some ''3.0.1'',
      paths = Some [(''/a'', no_methods\<lparr>get := Some cycle_operation\<rparr>)],
      schemas =
        [(''A'', Object (Some [(''b'', Reference (pointer ''B''))])),
         (''B'', Object (Some [(''a'', Reference (pointer ''A''))]))]\<rparr>"



section \<open>Version check at construction\<close>

lemma first_elem_split_str:
  "first_elem (split_str c s) = Some (takeWhile (\<lambda>x. x \<noteq> c) s)"
  by (induction s) (auto simp: first_elem_def split: list.splits)

lemma majorVersion_takeWhile:
  "majorVersion spec =
     (case openapi spec of
        None \<Rightarrow> None
      | Some v \<Rightarrow> if v = [] then None else Some (takeWhile (\<lambda>x. x \<noteq> CHR ''.'') v))"
  by (simp add: majorVersion_def first_elem_split_str split: option.splits)

text \<open>
  C6. Construction yields the instance exactly when the document declares a version whose
  part before the first dot is \<open>3\<close>. In every other case, a missing version field
  included, it throws the version error, and the result holds no instance.
\<close>

theorem new_OpenAPIService_major_version:
  "new_OpenAPIService json =
     (if \<exists>v. openapi json = Some v \<and> takeWhile (\<lambda>c. c \<noteq> CHR ''.'') v = ''3''
      then Inr json
      else Inl (Error ''Only OpenApi version 3 supported yet.''))"
  by (auto simp: new_OpenAPIService_def majorVersion_takeWhile SUPPORTED_VERSION_def
           split: option.splits)

theorem new_OpenAPIService_major_version_witness:
  "new_OpenAPIService routes_doc = Inr routes_doc \<and>
   new_OpenAPIService (routes_doc\<lparr>openapi := Some ''30.1''\<rparr>) =
     Inl (Error ''Only OpenApi version 3 supported yet.'') \<and>
   new_OpenAPIService (routes_doc\<lparr>openapi := None\<rparr>) =
     Inl (Error ''Only OpenApi version 3 supported yet.'')"
  using new_OpenAPIService_major_version [of routes_doc]
    new_OpenAPIService_major_version [of "routes_doc\<lparr>openapi := Some ''30.1''\<rparr>"]
    new_OpenAPIService_major_version [of "routes_doc\<lparr>openapi := None\<rparr>"]
  by (simp add: routes_doc_def)

section \<open>Listing endpoints\<close>

text \<open>
  C9. \<open>getEndpoints\<close> returns the path keys in ascending lexicographic order, each key
  once (the keys of an object are distinct), and the empty list when the document has no
  paths.
\<close>

theorem getEndpoints_sorted_keys:
  "(paths spec = None \<or> paths spec = Some [] \<longrightarrow> getEndpoints spec = []) \<and>
   (\<forall>ps. paths spec = Some ps \<and> distinct (map fst ps) \<longrightarrow>
      sorted (getEndpoints spec) \<and> distinct (getEndpoints spec) \<and>
      set (getEndpoints spec) = fst ` set ps)"
proof (intro conjI allI impI)
  assume "paths spec = None \<or> paths spec = Some []"
  then show "getEndpoints spec = []"
    by (auto simp: getEndpoints_def)
next
  fix ps
  assume "paths spec = Some ps \<and> distinct (map fst ps)"
  then have keys: "getEndpoints spec = sort (map fst ps)" and d: "distinct (map fst ps)"
    by (simp_all add: getEndpoints_def)
  show "sorted (getEndpoints spec)"
    unfolding keys by (rule sorted_sort)
  show "distinct (getEndpoints spec)"
    unfolding keys using d by (simp only: distinct_sort)
  show "set (getEndpoints spec) = fst ` set ps"
    unfolding keys by (simp only: set_sort set_map)
qed

theorem getEndpoints_sorted_keys_witness:
  "getEndpoints (routes_doc\<lparr>paths := None\<rparr>) = [] \<and>
   paths routes_doc \<noteq> None \<and>
   distinct (map fst (the (paths routes_doc))) \<and>
   sorted (getEndpoints routes_doc) \<and> distinct (getEndpoints routes_doc) \<and>
   set (getEndpoints routes_doc) = {''/api/pets'', ''/v2/users'', ''/api/users'', ''/api/empty''}"
proof -
  have ps: "paths routes_doc = Some (the (paths routes_doc))"
    and d: "distinct (map fst (the (paths routes_doc)))"
    and s: "fst ` set (the (paths routes_doc)) =
              {''/api/pets'', ''/v2/users'', ''/api/users'', ''/api/empty''}"
    by (simp_all add: routes_doc_def)
  from getEndpoints_sorted_keys [of "routes_doc\<lparr>paths := None\<rparr>"]
  have "getEndpoints (routes_doc\<lparr>paths := None\<rparr>) = []" by simp
  moreover from getEndpoints_sorted_keys [of routes_doc] ps d
  have "sorted (getEndpoints routes_doc) \<and> distinct (getEndpoints routes_doc) \<and>
        set (getEndpoints routes_doc) = fst ` set (the (paths routes_doc))"
    by blast
  ultimately show ?thesis using d s by (simp add: routes_doc_def)
qed

section \<open>Looking an operation up\<close>

lemma find_first:
  "P x \<Longrightarrow> \<forall>y \<in> set pre. \<not> P y \<Longrightarrow> find P (pre @ x # rest) = Some x"
  by (induction pre) auto

lemma find_none: "\<forall>y \<in> set xs. \<not> P y \<Longrightarrow> find P xs = None"
  by (induction xs) auto

text \<open>
  C3. The lookup takes the first path key, in the order of the paths object, that ends
  with the endpoint, and of its path item the first operation present among GET, POST,
  PUT and DELETE, so none when the item has none of them. When no path key ends with
  the endpoint the lookup returns none.
\<close>

theorem getOperationByEndpoint_first_suffix:
  "(\<forall>pre key item rest.
      paths spec = Some (pre @ (key, item) # rest) \<and> suffix endpoint key \<and>
      (\<forall>k \<in> fst ` set pre. \<not> suffix endpoint k) \<longrightarrow>
      getOperationByEndpoint spec endpoint =
        (if get item \<noteq> None then get item
         else if post item \<noteq> None then post item
         else if put item \<noteq> None then put item
         else delete item)) \<and>
   ((\<forall>ps. paths spec = Some ps \<longrightarrow> (\<forall>k \<in> fst ` set ps. \<not> suffix endpoint k)) \<longrightarrow>
      getOperationByEndpoint spec endpoint = None)"
proof (intro conjI allI impI)
  fix pre key item rest
  assume a: "paths spec = Some (pre @ (key, item) # rest) \<and> suffix endpoint key \<and>
      (\<forall>k \<in> fst ` set pre. \<not> suffix endpoint k)"
  then have "find (\<lambda>(key, _). endsWith key endpoint) (pre @ (key, item) # rest)
               = Some (key, item)"
    by (intro find_first) (auto simp: endsWith_def)
  with a show "getOperationByEndpoint spec endpoint =
        (if get item \<noteq> None then get item
         else if post item \<noteq> None then post item
         else if put item \<noteq> None then put item
         else delete item)"
    by (cases "get item"; cases "post item"; cases "put item")
       (simp_all add: getOperationByEndpoint_def)
next
  assume a: "\<forall>ps. paths spec = Some ps \<longrightarrow> (\<forall>k \<in> fst ` set ps. \<not> suffix endpoint k)"
  show "getOperationByEndpoint spec endpoint = None"
  proof (cases "paths spec")
    case None
    then show ?thesis by (simp add: getOperationByEndpoint_def)
  next
    case (Some ps)
    with a have "find (\<lambda>(key, _). endsWith key endpoint) ps = None"
      by (intro find_none) (auto simp: endsWith_def)
    with Some show ?thesis by (simp add: getOperationByEndpoint_def)
  qed
qed

theorem getOperationByEndpoint_first_suffix_witness:
  "getOperationByEndpoint routes_doc ''/users'' = Some (plain_operation ''put-v2'') \<and>
   getOperationByEndpoint routes_doc ''/empty'' = None \<and>
   getOperationByEndpoint routes_doc ''/orders'' = None"
proof -
  let ?pets = "(''/api/pets'', no_methods\<lparr>get := Some (plain_operation ''pets'')\<rparr>)"
  let ?v2 = "no_methods\<lparr>put := Some (plain_operation ''put-v2''),
                         delete := Some (plain_operation ''delete-v2'')\<rparr>"
  let ?api = "(''/api/users'', no_methods\<lparr>get := Some (plain_operation ''get-api'')\<rparr>)"
  have 1: "paths routes_doc =
             Some ([?pets] @ (''/v2/users'', ?v2) # [?api, (''/api/empty'', no_methods)]) \<and>
           suffix ''/users'' ''/v2/users'' \<and>
           (\<forall>k \<in> fst ` set [?pets]. \<not> suffix ''/users'' k)"
    by (simp add: routes_doc_def suffix_to_prefix)
  have 2: "paths routes_doc =
             Some ([?pets, (''/v2/users'', ?v2), ?api] @ (''/api/empty'', no_methods) # []) \<and>
           suffix ''/empty'' ''/api/empty'' \<and>
           (\<forall>k \<in> fst ` set [?pets, (''/v2/users'', ?v2), ?api]. \<not> suffix ''/empty'' k)"
    by (simp add: routes_doc_def suffix_to_prefix)
  have 3: "\<forall>ps. paths routes_doc = Some ps \<longrightarrow> (\<forall>k \<in> fst ` set ps. \<not> suffix ''/orders'' k)"
    by (simp add: routes_doc_def suffix_to_prefix)
  from getOperationByEndpoint_first_suffix [of routes_doc "''/users''",
      THEN conjunct1, rule_format, OF 1]
  have "getOperationByEndpoint routes_doc ''/users'' = Some (plain_operation ''put-v2'')"
    by (simp add: no_methods_def)
  moreover
  from getOperationByEndpoint_first_suffix [of routes_doc "''/empty''",
      THEN conjunct1, rule_format, OF 2]
  have "getOperationByEndpoint routes_doc ''/empty'' = None"
    by (simp add: no_methods_def)
  moreover
  from getOperationByEndpoint_first_suffix [of routes_doc "''/orders''",
      THEN conjunct2, THEN mp, OF 3]
  have "getOperationByEndpoint routes_doc ''/orders'' = None" .
  ultimately show ?thesis by simp
qed

section \<open>Endpoints that resolve to no operation\<close>

lemma reduce_schemas_skip:
  "reduce_schemas spec (ops1 @ None # ops2) store = reduce_schemas spec (ops1 @ ops2) store"
proof (induction ops1 arbitrary: store)
  case Nil
  show ?case by simp
next
  case (Cons a ops1)
  show ?case
    by (cases a) (simp_all add: Cons.IH split: sum.splits option.splits)
qed

lemma dom_getOperationsByEndpoints_fold:
  "fst ` set (fold (\<lambda>endpoint store.
                   case getOperationByEndpoint spec endpoint of
                     None \<Rightarrow> store
                   | Some operation \<Rightarrow> assign endpoint operation store) es store)
   = fst ` set store \<union>
       {e \<in> set es. getOperationByEndpoint spec e \<noteq> None \<and> e \<noteq> ''__proto__''}"
proof (induction es arbitrary: store)
  case Nil
  show ?case by simp
next
  case (Cons a es)
  show ?case
    by (cases "getOperationByEndpoint spec a")
       (auto simp: Cons.IH assign_def dom_update)
qed

lemma dom_getOperationsByEndpoints:
  "fst ` set (getOperationsByEndpoints spec es) =
     {e \<in> set es. getOperationByEndpoint spec e \<noteq> None \<and> e \<noteq> ''__proto__''}"
  by (simp add: getOperationsByEndpoints_def dom_getOperationsByEndpoints_fold)

text \<open>
  C7. An endpoint that resolves to no operation leaves both results as they are without
  it: the schemas and the operations found for a set containing it are those found for
  the set without it, and it is no key of the operations returned.
\<close>

theorem unresolvable_endpoint_omitted:
  assumes "getOperationByEndpoint spec e = None"
  shows "getSchemasByEndpoints spec (es1 @ e # es2) = getSchemasByEndpoints spec (es1 @ es2) \<and>
         getOperationsByEndpoints spec (es1 @ e # es2) = getOperationsByEndpoints spec (es1 @ es2) \<and>
         e \<notin> fst ` set (getOperationsByEndpoints spec es)"
proof (intro conjI)
  show "getSchemasByEndpoints spec (es1 @ e # es2) = getSchemasByEndpoints spec (es1 @ es2)"
    using assms by (simp add: getSchemasByEndpoints_def reduce_schemas_skip)
  show "getOperationsByEndpoints spec (es1 @ e # es2) = getOperationsByEndpoints spec (es1 @ es2)"
    using assms by (simp add: getOperationsByEndpoints_def)
  show "e \<notin> fst ` set (getOperationsByEndpoints spec es)"
    using assms by (simp add: dom_getOperationsByEndpoints)
qed

theorem unresolvable_endpoint_omitted_witness:
  "getOperationByEndpoint routes_doc ''/orders'' = None \<and>
   getSchemasByEndpoints routes_doc [''/pets'', ''/orders'', ''/users''] =
     getSchemasByEndpoints routes_doc [''/pets'', ''/users''] \<and>
   getOperationsByEndpoints routes_doc [''/pets'', ''/orders'', ''/users''] =
     [(''/pets'', plain_operation ''pets''), (''/users'', plain_operation ''put-v2'')]"
proof -
  have none: "getOperationByEndpoint routes_doc ''/orders'' = None"
    by code_simp
  have "getOperationsByEndpoints routes_doc [''/pets'', ''/users''] =
          [(''/pets'', plain_operation ''pets''), (''/users'', plain_operation ''put-v2'')]"
    by code_simp
  with unresolvable_endpoint_omitted [OF none, of "[''/pets'']" "[''/users'']"] none
  show ?thesis by simp
qed

section \<open>Operations without a response for status 200\<close>

lemma getReferencesByOperation_TypeError:
  "getReferencesByOperation operation = Inl err \<longleftrightarrow>
     err = TypeError \<and> map_of (responses operation) ''200'' = None"
  by (auto simp: getReferencesByOperation_def Let_def split: option.splits)

lemma reduce_schemas_throws:
  "reduce_schemas spec ops store = Some (Inl err) \<Longrightarrow>
     err = TypeError \<and>
     (\<exists>operation. Some operation \<in> set ops \<and> map_of (responses operation) ''200'' = None)"
proof (induction ops arbitrary: store)
  case Nil
  then show ?case by simp
next
  case (Cons a ops)
  show ?case
  proof (cases a)
    case None
    with Cons show ?thesis by auto
  next
    case (Some operation)
    show ?thesis
    proof (cases "getReferencesByOperation operation")
      case (Inl e)
      then have "e = TypeError \<and> map_of (responses operation) ''200'' = None"
        by (simp add: getReferencesByOperation_TypeError)
      with Inl Some Cons.prems show ?thesis by auto
    next
      case (Inr refs)
      show ?thesis
      proof (cases "getSchemas spec refs")
        case None
        with Inr Some Cons.prems show ?thesis by simp
      next
        case (Some found)
        with Inr \<open>a = Some operation\<close> Cons.prems
        have "reduce_schemas spec ops (spread store found) = Some (Inl err)" by simp
        from Cons.IH [OF this] show ?thesis by auto
      qed
    qed
  qed
qed

lemma reduce_schemas_no_200:
  "Some operation \<in> set ops \<Longrightarrow> map_of (responses operation) ''200'' = None \<Longrightarrow>
     reduce_schemas spec ops store = None \<or> reduce_schemas spec ops store = Some (Inl TypeError)"
proof (induction ops arbitrary: store)
  case Nil
  then show ?case by simp
next
  case (Cons a ops)
  show ?case
  proof (cases "a = Some operation")
    case True
    have "getReferencesByOperation operation = Inl TypeError"
      using Cons.prems(2) by (simp add: getReferencesByOperation_TypeError)
    with True show ?thesis by simp
  next
    case False
    with Cons.prems have "Some operation \<in> set ops" by simp
    from Cons.IH [OF this Cons.prems(2)]
    have ih: "\<And>st. reduce_schemas spec ops st = None \<or> reduce_schemas spec ops st = Some (Inl TypeError)" .
    show ?thesis
    proof (cases a)
      case None
      with ih show ?thesis by simp
    next
      case (Some op')
      show ?thesis
      proof (cases "getReferencesByOperation op'")
        case (Inl e)
        then have "e = TypeError" by (simp add: getReferencesByOperation_TypeError)
        with Inl Some show ?thesis by simp
      next
        case (Inr refs)
        with Some ih show ?thesis
          by (cases "getSchemas spec refs") simp_all
      qed
    qed
  qed
qed

text \<open>
  C8. When an endpoint of the set resolves to an operation without a response for status
  200, \<open>getSchemasByEndpoints\<close> returns no mapping: the call throws the type error (or
  an earlier operation of the set has kept it from returning). When every resolved
  operation has that response, the call throws nothing.
\<close>

theorem missing_200_response_fails:
  "(\<forall>e operation.
      e \<in> set endpoints \<and> getOperationByEndpoint spec e = Some operation \<and>
      map_of (responses operation) ''200'' = None \<longrightarrow>
      getSchemasByEndpoints spec endpoints = None \<or>
      getSchemasByEndpoints spec endpoints = Some (Inl TypeError)) \<and>
   ((\<forall>e \<in> set endpoints. \<forall>operation. getOperationByEndpoint spec e = Some operation \<longrightarrow>
        map_of (responses operation) ''200'' \<noteq> None) \<longrightarrow>
      (\<forall>err. getSchemasByEndpoints spec endpoints \<noteq> Some (Inl err)))"
proof (intro conjI allI impI)
  fix e operation
  assume a: "e \<in> set endpoints \<and> getOperationByEndpoint spec e = Some operation \<and>
      map_of (responses operation) ''200'' = None"
  then have "endpoints \<noteq> []" by auto
  moreover from a have "Some operation \<in> set (map (getOperationByEndpoint spec) endpoints)"
    by force
  ultimately show "getSchemasByEndpoints spec endpoints = None \<or>
      getSchemasByEndpoints spec endpoints = Some (Inl TypeError)"
    using a reduce_schemas_no_200 [of operation _ spec "[]"]
    by (simp add: getSchemasByEndpoints_def)
next
  fix err
  assume a: "\<forall>e \<in> set endpoints. \<forall>operation. getOperationByEndpoint spec e = Some operation \<longrightarrow>
        map_of (responses operation) ''200'' \<noteq> None"
  show "getSchemasByEndpoints spec endpoints \<noteq> Some (Inl err)"
  proof
    assume "getSchemasByEndpoints spec endpoints = Some (Inl err)"
    then have "reduce_schemas spec (map (getOperationByEndpoint spec) endpoints) [] = Some (Inl err)"
      by (simp add: getSchemasByEndpoints_def split: if_splits)
    from reduce_schemas_throws [OF this] a show False by (metis imageE list.set_map)
  qed
qed

theorem missing_200_response_fails_witness:
  "getOperationByEndpoint users_doc ''/created'' =
     Some (body_operation ''User'' [(''201'', \<lparr>response_content = None\<rparr>)]) \<and>
   getSchemasByEndpoints users_doc [''/users'', ''/created''] = Some (Inl TypeError) \<and>
   (\<forall>err. getSchemasByEndpoints users_doc [''/users''] \<noteq> Some (Inl err))"
proof -
  let ?op = "body_operation ''User'' [(''201'', \<lparr>response_content = None\<rparr>)]"
  have op: "getOperationByEndpoint users_doc ''/created'' = Some ?op"
    by code_simp
  have no200: "map_of (responses ?op) ''200'' = None"
    by (simp add: body_operation_def)
  have returns: "getSchemasByEndpoints users_doc [''/users'', ''/created''] \<noteq> None"
    by code_simp
  from missing_200_response_fails [of "[''/users'', ''/created'']" users_doc,
      THEN conjunct1, rule_format, of "''/created''" ?op] op no200 returns
  have 1: "getSchemasByEndpoints users_doc [''/users'', ''/created''] = Some (Inl TypeError)"
    by simp
  have "getOperationByEndpoint users_doc ''/users'' = Some (body_operation ''User'' ok_response)"
    by code_simp
  then have "\<forall>e \<in> set [''/users'']. \<forall>operation.
               getOperationByEndpoint users_doc e = Some operation \<longrightarrow>
               map_of (responses operation) ''200'' \<noteq> None"
    by (simp add: body_operation_def ok_response_def)
  from missing_200_response_fails [of "[''/users'']" users_doc, THEN conjunct2, THEN mp, OF this]
  have 2: "\<forall>err. getSchemasByEndpoints users_doc [''/users''] \<noteq> Some (Inl err)" .
  from op 1 2 show ?thesis by simp
qed

section \<open>Expansion along the reference graph\<close>

lemma shape_get_property [simp]: "shape (get_property obj key) = map_of obj key"
  by (simp add: shape_def get_property_def split: option.splits)


lemma forEach_None:
  assumes "x \<in> set xs" and "\<And>acc. body x acc = None"
  shows "forEach xs body acc = None"
  using assms(1)
proof (induction xs arbitrary: acc)
  case Nil
  then show ?case by simp
next
  case (Cons a xs)
  show ?case
  proof (cases "body a acc")
    case None
    then show ?thesis by simp
  next
    case (Some acc')
    show ?thesis
    proof (cases "a = x")
      case True
      with Some assms(2) show ?thesis by simp
    next
      case False
      with Cons.prems have "x \<in> set xs" by simp
      with Some Cons.IH show ?thesis by simp
    qed
  qed
qed

lemma scan_isObject: "m \<in> set (scan spec n) \<Longrightarrow> isObject (map_of (schemas spec) n)"
  by (simp add: scan_def Let_def split: if_splits)

lemma scan_property:
  assumes "m \<in> set (scan spec n)"
  obtains z x where
    "z \<in> set (map snd (case properties (the (map_of (schemas spec) n)) of None \<Rightarrow> [] | Some ps \<Rightarrow> ps))"
    "x \<in> set (propertyRefs z)" "getSchemaKey x = m"
  using assms by (auto simp: scan_def Let_def split: if_splits)

lemma reaches_cycle_step:
  assumes "n \<in> reaches_cycle spec"
  obtains m where "m \<in> set (scan spec n)" "m \<in> reaches_cycle spec"
proof -
  from assms obtain c where nc: "(n, c) \<in> (refers spec)\<^sup>*" and cc: "(c, c) \<in> (refers spec)\<^sup>+"
    by (auto simp: reaches_cycle_def)
  from cc obtain m where cm: "(c, m) \<in> refers spec" and mc: "(m, c) \<in> (refers spec)\<^sup>*"
    by (auto dest: tranclD)
  show thesis
  proof (cases "n = c")
    case True
    with cm mc cc that show ?thesis
      by (auto simp: reaches_cycle_def refers_def)
  next
    case False
    with nc obtain k where "(n, k) \<in> refers spec" "(k, c) \<in> (refers spec)\<^sup>*"
      by (auto elim: converse_rtranclE)
    with cc that show ?thesis
      by (auto simp: reaches_cycle_def refers_def)
  qed
qed


lemma cyclic_never_returns_aux:
  assumes "getReferencesByObject spec' object' = Some y'"
  shows "\<not> (\<exists>n \<in> reaches_cycle spec'. map_of (schemas spec') n = Some object')"
proof (rule getReferencesByObject.raw_induct
    [where P = "\<lambda>spec object y.
        \<not> (\<exists>n \<in> reaches_cycle spec. map_of (schemas spec) n = Some object)", OF _ assms])
  fix f :: "IOpenAPI3 \<Rightarrow> schema \<Rightarrow> string list option" and spec object y
  assume IH: "\<And>spec object y. f spec object = Some y \<Longrightarrow>
                \<not> (\<exists>n \<in> reaches_cycle spec. map_of (schemas spec) n = Some object)"
    and prem: "forEach (map snd (case properties object of None \<Rightarrow> [] | Some ps \<Rightarrow> ps))
       (\<lambda>z refs.
          forEach (propertyRefs z)
            (\<lambda>x refs.
               let refs = refs @ [x];
                   schema = get_property (schemas spec) (getSchemaKey x)
               in if isObject (shape schema)
                  then Option.bind (f spec (the (shape schema)))
                         (\<lambda>r. Some (refs @ r))
                  else Some refs)
            refs)
       [] = Some y"
  show "\<not> (\<exists>n \<in> reaches_cycle spec. map_of (schemas spec) n = Some object)"
  proof
    assume "\<exists>n \<in> reaches_cycle spec. map_of (schemas spec) n = Some object"
    then obtain n where n: "n \<in> reaches_cycle spec" and obj: "map_of (schemas spec) n = Some object"
      by blast
    from n obtain m where m: "m \<in> set (scan spec n)" "m \<in> reaches_cycle spec"
      by (rule reaches_cycle_step)
    from m(2) obtain k where "k \<in> set (scan spec m)"
      by (rule reaches_cycle_step)
    then have "isObject (map_of (schemas spec) m)"
      by (rule scan_isObject)
    then obtain om where om: "map_of (schemas spec) m = Some om"
      by (cases "map_of (schemas spec) m") auto
    have "f spec om = None"
    proof (cases "f spec om")
      case (Some r)
      from IH [OF this] m(2) om show ?thesis by blast
    qed simp
    from m(1) obtain z x where
      z: "z \<in> set (map snd (case properties (the (map_of (schemas spec) n)) of None \<Rightarrow> [] | Some ps \<Rightarrow> ps))"
      and x: "x \<in> set (propertyRefs z)" and key: "getSchemaKey x = m"
      by (rule scan_property)
    let ?inner = "\<lambda>x refs.
               let refs = refs @ [x];
                   schema = get_property (schemas spec) (getSchemaKey x)
               in if isObject (shape schema)
                  then Option.bind (f spec (the (shape schema)))
                         (\<lambda>r. Some (refs @ r))
                  else Some refs"
    have "\<And>refs. ?inner x refs = None"
      using key om \<open>isObject (map_of (schemas spec) m)\<close> \<open>f spec om = None\<close>
      by (simp add: Let_def)
    then have "\<And>refs. forEach (propertyRefs z) ?inner refs = None"
      using x by (intro forEach_None [where x = x]) auto
    then have "forEach (map snd (case properties object of None \<Rightarrow> [] | Some ps \<Rightarrow> ps))
       (\<lambda>z refs. forEach (propertyRefs z) ?inner refs) [] = None"
      using z obj by (intro forEach_None [where x = z]) auto
    with prem show False by simp
  qed
qed

lemma cyclic_never_returns:
  assumes "n \<in> reaches_cycle spec"
  shows "getReferencesByObject spec (the (map_of (schemas spec) n)) = None"
proof -
  from assms obtain m where "m \<in> set (scan spec n)" by (rule reaches_cycle_step)
  then have "isObject (map_of (schemas spec) n)" by (rule scan_isObject)
  then obtain object where obj: "map_of (schemas spec) n = Some object"
    by (cases "map_of (schemas spec) n") auto
  show ?thesis
  proof (cases "getReferencesByObject spec object")
    case None
    with obj show ?thesis by simp
  next
    case (Some y)
    from cyclic_never_returns_aux [OF this] assms obj show ?thesis by blast
  qed
qed







lemma set_Set_add [simp]: "set (Set_add x s) = insert x (set s)"
  by (auto simp: Set_add_def)

lemma distinct_Set_add [simp]: "distinct (Set_add x s) = distinct s"
  by (auto simp: Set_add_def)

lemma set_fold_Set_add: "set (fold (\<lambda>x. Set_add (f x)) xs s) = f ` set xs \<union> set s"
  by (induction xs arbitrary: s) auto

lemma distinct_fold_Set_add: "distinct (fold (\<lambda>x. Set_add (f x)) xs s) = distinct s"
  by (induction xs arbitrary: s) auto

lemma set_new_Set [simp]: "set (new_Set xs) = set xs"
  using set_fold_Set_add [of "\<lambda>x. x" xs "[]"] by (simp add: new_Set_def)

lemma distinct_new_Set [simp]: "distinct (new_Set xs)"
  using distinct_fold_Set_add [of "\<lambda>x. x" xs "[]"] by (simp add: new_Set_def)








lemma getSchemas_cyclic:
  assumes "n \<in> getSchemaKey ` set refs" and "n \<in> reaches_cycle spec"
  shows "getSchemas spec refs = None"
proof -
  from assms(2) obtain m where "m \<in> set (scan spec n)" by (rule reaches_cycle_step)
  then have "isObject (map_of (schemas spec) n)" by (rule scan_isObject)
  with cyclic_never_returns [OF assms(2)]
  have "\<And>acc. (let schema = get_property (schemas spec) n
                 in if isObject (shape schema)
                    then Option.bind (getReferencesByObject spec (the (shape schema)))
                           (\<lambda>rs. Some (fold (\<lambda>x. Set_add (getSchemaKey x)) rs acc))
                    else Some acc) = None"
    by (simp add: Let_def)
  moreover from assms(1) have "n \<in> set (new_Set (map getSchemaKey refs))" by simp
  ultimately show ?thesis
    unfolding getSchemas_def Let_def
    by (subst forEach_None [where x = n]) (simp_all add: Let_def)
qed


section \<open>The visited-set closure computes reachability\<close>




section \<open>The closure the service returns\<close>



lemma propertyRefs_simps [simp]:
  "propertyRefs (Reference r) = [r]"
  "propertyRefs (Collection (Reference r)) = [r]"
  "propertyRefs (AllOf rs) = rs"
  by (simp_all add: propertyRefs_def)




lemma getReferencesByOperation_returns:
  "map_of (responses operation) ''200'' \<noteq> None \<Longrightarrow> \<exists>refs. getReferencesByOperation operation = Inr refs"
  by (auto simp: getReferencesByOperation_def Let_def)

lemma direct_references_returns:
  "(\<forall>operation. Some operation \<in> set ops \<longrightarrow> map_of (responses operation) ''200'' \<noteq> None) \<Longrightarrow>
     \<exists>refs. direct_references ops = Inr refs"
proof (induction ops)
  case Nil
  show ?case by simp
next
  case (Cons a ops)
  then obtain others where others: "direct_references ops = Inr others" by auto
  show ?case
  proof (cases a)
    case None
    with others show ?thesis by simp
  next
    case (Some operation)
    with Cons.prems obtain rs where "getReferencesByOperation operation = Inr rs"
      using getReferencesByOperation_returns [of operation] by auto
    with Some others show ?thesis by simp
  qed
qed







lemma scan_property_refs:
  assumes "map_of (schemas spec) n = Some (Object (Some ps))"
    and "(p, z) \<in> set ps" and "r \<in> set (propertyRefs z)"
  shows "getSchemaKey r \<in> set (scan spec n)"
  using assms by (force simp: scan_def Let_def)




section \<open>When the service returns\<close>





section \<open>The two passes and the single pass\<close>









section \<open>Schemas of a request body\<close>






section \<open>Reference cycles\<close>

lemma cycle_reaches_cycle:
  assumes "b \<in> set (scan spec a)" and "a \<in> set (scan spec b)"
    and "(n, a) \<in> (refers spec)\<^sup>*"
  shows "n \<in> reaches_cycle spec"
proof -
  from assms(1,2) have "(a, b) \<in> refers spec" "(b, a) \<in> refers spec"
    by (simp_all add: refers_def)
  then have "(a, a) \<in> (refers spec)\<^sup>+"
    by (meson trancl.simps)
  with assms(3) show ?thesis
    by (auto simp: reaches_cycle_def)
qed

lemma getSchemasByEndpoints_cyclic:
  assumes "getOperationByEndpoint spec endpoint = Some operation"
    and "getReferencesByOperation operation = Inr refs"
    and "r \<in> set refs" and "getSchemaKey r \<in> reaches_cycle spec"
  shows "getSchemasByEndpoints spec [endpoint] = None"
proof -
  from assms(3,4) have "getSchemas spec refs = None"
    by (intro getSchemas_cyclic [where n = "getSchemaKey r"]) auto
  with assms(1,2) show ?thesis
    by (simp add: getSchemasByEndpoints_def)
qed

text \<open>
  C2, as amended. When two object schemas \<open>a\<close> and \<open>b\<close> each have a property referring to
  the other, and a reference found directly in an operation leads to \<open>a\<close>, the expansion
  of \<open>a\<close> does not return, and neither does \<open>getSchemasByEndpoints\<close> for an endpoint
  resolving to that operation: nothing in the expansion remembers the schemas visited.
\<close>

theorem reference_cycle_never_returns:
  assumes "map_of (schemas spec) a = Some (Object (Some psa))"
    and "(pa, Reference rb) \<in> set psa" and "getSchemaKey rb = b"
    and "map_of (schemas spec) b = Some (Object (Some psb))"
    and "(pb, Reference ra) \<in> set psb" and "getSchemaKey ra = a"
    and "getOperationByEndpoint spec endpoint = Some operation"
    and "getReferencesByOperation operation = Inr refs"
    and "r \<in> set refs" and "(getSchemaKey r, a) \<in> (refers spec)\<^sup>*"
  shows "getReferencesByObject spec (Object (Some psa)) = None \<and>
         getSchemasByEndpoints spec [endpoint] = None"
proof -
  have ab: "b \<in> set (scan spec a)"
    using assms(1,2,3) by (auto intro: scan_property_refs [where z = "Reference rb"])
  have ba: "a \<in> set (scan spec b)"
    using assms(4,5,6) by (auto intro: scan_property_refs [where z = "Reference ra"])
  have "a \<in> reaches_cycle spec"
    using ab ba by (rule cycle_reaches_cycle) simp
  from cyclic_never_returns [OF this] assms(1)
  have "getReferencesByObject spec (Object (Some psa)) = None" by simp
  moreover have "getSchemaKey r \<in> reaches_cycle spec"
    using ab ba assms(10) by (rule cycle_reaches_cycle)
  with assms(7,8,9) have "getSchemasByEndpoints spec [endpoint] = None"
    by (rule getSchemasByEndpoints_cyclic)
  ultimately show ?thesis by simp
qed

lemma cycle_doc_facts:
  "map_of (schemas cycle_doc) ''A'' = Some (Object (Some [(''b'', Reference (pointer ''B''))]))"
  "map_of (schemas cycle_doc) ''B'' = Some (Object (Some [(''a'', Reference (pointer ''A''))]))"
  "getSchemaKey (pointer ''A'') = ''A''"
  "getSchemaKey (pointer ''B'') = ''B''"
  "getOperationByEndpoint cycle_doc ''/a'' = Some cycle_operation"
  "getReferencesByOperation cycle_operation = Inr [pointer ''A'']"
  by code_simp+

theorem reference_cycle_never_returns_witness:
  "getReferencesByObject cycle_doc (Object (Some [(''b'', Reference (pointer ''B''))])) = None \<and>
   getSchemasByEndpoints cycle_doc [''/a''] = None"
proof -
  have b: "(''b'', Reference (pointer ''B'')) \<in> set [(''b'', Reference (pointer ''B''))]"
    and a: "(''a'', Reference (pointer ''A'')) \<in> set [(''a'', Reference (pointer ''A''))]"
    and r: "pointer ''A'' \<in> set [pointer ''A'']"
    and reach: "(getSchemaKey (pointer ''A''), ''A'') \<in> (refers cycle_doc)\<^sup>*"
    by (simp_all add: cycle_doc_facts)
  show ?thesis
    by (rule reference_cycle_never_returns
          [OF cycle_doc_facts(1) b cycle_doc_facts(4) cycle_doc_facts(2) a cycle_doc_facts(3)
              cycle_doc_facts(5) cycle_doc_facts(6) r reach])
qed

text \<open>
  C2 as stated fails on \<open>cycle_doc\<close>: \<open>A\<close> and \<open>B\<close> refer to each other, the operation of
  \<^verbatim>\<open>/a\<close> refers to \<open>A\<close>, and the call returns no mapping.
\<close>

theorem reference_cycle_counterexample:
  "map_of (schemas cycle_doc) ''A'' = Some (Object (Some [(''b'', Reference (pointer ''B''))])) \<and>
   map_of (schemas cycle_doc) ''B'' = Some (Object (Some [(''a'', Reference (pointer ''A''))])) \<and>
   getSchemaKey (pointer ''A'') = ''A'' \<and> getSchemaKey (pointer ''B'') = ''B'' \<and>
   getOperationByEndpoint cycle_doc ''/a'' = Some cycle_operation \<and>
   getReferencesByOperation cycle_operation = Inr [pointer ''A''] \<and>
   getSchemasByEndpoints cycle_doc [''/a''] = None"
proof -
  have "''B'' \<in> set (scan cycle_doc ''A'')" and "''A'' \<in> set (scan cycle_doc ''B'')"
    by code_simp+
  then have "getSchemaKey (pointer ''A'') \<in> reaches_cycle cycle_doc"
    by (rule cycle_reaches_cycle) (simp add: cycle_doc_facts)
  then have "getSchemasByEndpoints cycle_doc [''/a''] = None"
    by (intro getSchemasByEndpoints_cyclic [OF cycle_doc_facts(5) cycle_doc_facts(6)]) simp_all
  then show ?thesis
    by (simp add: cycle_doc_facts)
qed

section \<open>What a property contributes\<close>









section \<open>References to schemas the table lacks\<close>





end
